theory Spec2Isabelle
  imports Main "HOL-Library.Word"
begin

section \<open>Makeable: the agent module \<^verbatim>\<open>src/agent/createApp.ts\<close>\<close>

text \<open>
  The module has three parts: the image helpers \<^verbatim>\<open>compressImage\<close> and
  \<^verbatim>\<open>validateImageSize\<close>, the content pipeline \<^verbatim>\<open>processMessageContent\<close>, and the
  agentic loop of \<^verbatim>\<open>createApp\<close>. Every exception of the source is a value of a sum type here,
  every mutable variable is passed explicitly, and the two external collaborators (the
  \<^verbatim>\<open>sharp\<close> image library and the Anthropic client) are parameters of the functions that
  call them. JavaScript numbers that hold pixel counts, byte counts and quality levels are
  natural numbers; strings are lists of characters, one for each code unit.

  The file holds two revisions of the module. The line numbers below are those of the
  first. The second gives \<^verbatim>\<open>createApp\<close> a third parameter \<^verbatim>\<open>uploadedFiles\<close>, from which
  it builds the first user message as an array of one text item and one image item for
  each uploaded image, and raises \<^verbatim>\<open>max_tokens\<close>; the image helpers,
  \<^verbatim>\<open>processMessageContent\<close> and the loop are the same text in both.
\<close>

subsection \<open>Data\<close>

type_synonym buffer = "8 word list"

text \<open>\<^verbatim>\<open>interface GeneratedFile { path: string; content: string }\<close>\<close>

record GeneratedFile =
  path :: string
  content :: string

text \<open>\<^verbatim>\<open>interface AppGenerationResult { files: GeneratedFile[] }\<close>\<close>

record AppGenerationResult =
  files :: "GeneratedFile list"

text \<open>
  The source throws plain \<^verbatim>\<open>Error\<close> objects that differ in their message only:
  \<^item> \<open>ApiKeyNotSet\<close>: "ANTHROPIC_API_KEY environment variable is not set";
  \<^item> \<open>CompressionError\<close>: "Failed to compress image", thrown by the handler of
    \<^verbatim>\<open>compressImage\<close> for everything raised in its body;
  \<^item> \<open>GenerationError\<close>: "No files were generated. Please try again with a more specific
    prompt.";
  \<^item> \<open>UpstreamError\<close>: whatever \<^verbatim>\<open>client.messages.create\<close> raised, passed on unchanged.
\<close>

datatype 'u error = ApiKeyNotSet | CompressionError | GenerationError | UpstreamError 'u

subsection \<open>The image library\<close>

text \<open>
  What the module uses of \<^verbatim>\<open>sharp\<close> and of Node's \<^verbatim>\<open>Buffer\<close>:
  \<^item> \<open>metadata b\<close> is \<^verbatim>\<open>await sharp(b).metadata()\<close>, of which only \<^verbatim>\<open>width\<close> and
    \<^verbatim>\<open>height\<close> are read (either may be undefined);
  \<^item> \<open>resize_jpeg b w h q\<close> is
    \<^verbatim>\<open>await sharp(b).resize(w, h).jpeg({ quality: q }).toBuffer()\<close>;
  \<^item> \<open>from_base64 s\<close> is \<^verbatim>\<open>Buffer.from(s, 'base64')\<close> and \<open>to_base64 b\<close> is
    \<^verbatim>\<open>b.toString('base64')\<close>.
  Both \<^verbatim>\<open>sharp\<close> calls may reject; the error value is of an arbitrary type \<open>'e\<close>.
\<close>

record 'e image_lib =
  metadata :: "buffer \<Rightarrow> 'e + (nat option \<times> nat option)"
  resize_jpeg :: "buffer \<Rightarrow> nat option \<Rightarrow> nat option \<Rightarrow> nat \<Rightarrow> 'e + buffer"
  from_base64 :: "string \<Rightarrow> buffer"
  to_base64 :: "buffer \<Rightarrow> string"

subsection \<open>\<^verbatim>\<open>compressImage\<close> and \<^verbatim>\<open>validateImageSize\<close>\<close>

definition maxDimension :: nat where
  "maxDimension = 1024"

text \<open>
  \<^verbatim>\<open>Math.round(n / d)\<close> for a natural \<open>n\<close> and a positive \<open>d\<close>: the nearest integer, a tie
  going up. The quotient is taken exactly; the doubles of the source agree with it for all
  pixel counts below \<open>2^31\<close>.
\<close>

definition math_round_div :: "nat \<Rightarrow> nat \<Rightarrow> nat" where
  "math_round_div n d = (2 * n + d) div (2 * d)"

text \<open>
  Lines 21 to 37: the target dimensions. \<^verbatim>\<open>if (width && height)\<close> holds when both are
  defined and not zero.
\<close>

definition target_dimensions :: "nat option \<Rightarrow> nat option \<Rightarrow> nat option \<times> nat option" where
  "target_dimensions width height =
     (case (width, height) of
        (Some w, Some h) \<Rightarrow>
          if w \<noteq> 0 \<and> h \<noteq> 0 then
            if w > h then
              if w > maxDimension
              then (Some maxDimension, Some (math_round_div (h * maxDimension) w))
              else (width, height)
            else
              if h > maxDimension
              then (Some (math_round_div (w * maxDimension) h), Some maxDimension)
              else (width, height)
          else (width, height)
      | _ \<Rightarrow> (width, height))"

text \<open>
  Lines 46 to 53: the \<^verbatim>\<open>while\<close> loop. \<open>enc q\<close> is the re-encoding at quality \<open>q\<close>; the
  loop carries \<^verbatim>\<open>quality\<close> and \<^verbatim>\<open>compressedBuffer\<close>, and a rejected encoding leaves
  the loop with the error.
\<close>

function reduce_quality ::
  "(nat \<Rightarrow> 'e + buffer) \<Rightarrow> nat \<Rightarrow> nat \<Rightarrow> buffer \<Rightarrow> 'e + buffer" where
  "reduce_quality enc maxSizeBytes quality compressedBuffer =
     (if length compressedBuffer > maxSizeBytes \<and> quality > 10 then
        (case enc (quality - 10) of
           Inl e \<Rightarrow> Inl e
         | Inr b \<Rightarrow> reduce_quality enc maxSizeBytes (quality - 10) b)
      else Inr compressedBuffer)"
  by pat_completeness auto
termination
  by (relation "measure (\<lambda>(enc, maxSizeBytes, quality, compressedBuffer). quality)") auto

declare reduce_quality.simps [simp del]

text \<open>
  The body of the \<^verbatim>\<open>try\<close> block of \<^verbatim>\<open>compressImage\<close>. \<open>None\<close> is the error thrown at
  line 56 ("Image could not be compressed below ... limit"), \<open>Some e\<close> a rejection by
  \<^verbatim>\<open>sharp\<close>.
\<close>

definition compressImage_body ::
  "'e image_lib \<Rightarrow> buffer \<Rightarrow> nat \<Rightarrow> 'e option + buffer" where
  "compressImage_body lib imageBuffer maxSizeBytes =
     (case metadata lib imageBuffer of
        Inl e \<Rightarrow> Inl (Some e)
      | Inr (width0, height0) \<Rightarrow>
          (case target_dimensions width0 height0 of (width, height) \<Rightarrow>
             (case resize_jpeg lib imageBuffer width height 80 of
                Inl e \<Rightarrow> Inl (Some e)
              | Inr first \<Rightarrow>
                  (case reduce_quality (resize_jpeg lib imageBuffer width height)
                          maxSizeBytes 80 first of
                     Inl e \<Rightarrow> Inl (Some e)
                   | Inr compressedBuffer \<Rightarrow>
                       if length compressedBuffer > maxSizeBytes then Inl None
                       else Inr compressedBuffer))))"

text \<open>
  \<^verbatim>\<open>compressImage(imageBuffer, maxSizeMB = 5)\<close>: the \<^verbatim>\<open>catch\<close> turns every error of the
  body into the one error "Failed to compress image".
\<close>

definition compressImage :: "'e image_lib \<Rightarrow> buffer \<Rightarrow> nat \<Rightarrow> 'u error + buffer" where
  "compressImage lib imageBuffer maxSizeMB =
     (let maxSizeBytes = maxSizeMB * 1024 * 1024 in
      case compressImage_body lib imageBuffer maxSizeBytes of
        Inl _ \<Rightarrow> Inl CompressionError
      | Inr compressedBuffer \<Rightarrow> Inr compressedBuffer)"

definition validateImageSize :: "buffer \<Rightarrow> nat \<Rightarrow> bool" where
  "validateImageSize buffer maxSizeMB =
     (let maxSizeBytes = maxSizeMB * 1024 * 1024 in length buffer \<le> maxSizeBytes)"

subsection \<open>\<^verbatim>\<open>processMessageContent\<close>\<close>

text \<open>
  The items of a content array. An image item has a \<^verbatim>\<open>source\<close> (possibly undefined) with a
  \<^verbatim>\<open>type\<close>, a \<^verbatim>\<open>media_type\<close> and the payload \<^verbatim>\<open>data\<close>; the payload is undefined when
  the data URL it was cut from had no comma (\<^verbatim>\<open>file.data.split(',')[1]\<close>).
\<close>

datatype source_type = base64 | url

record image_source =
  source_type :: source_type
  media_type :: string
  data :: "string option"

text \<open>
  \<open>ImageItem\<close> is an item whose \<^verbatim>\<open>type\<close> is \<^verbatim>\<open>'image'\<close>; \<open>TextItem\<close> stands for the
  items of every other type.
\<close>

datatype content_item =
    TextItem string
  | ImageItem "image_source option"

text \<open>
  The argument of \<^verbatim>\<open>processMessageContent\<close> is of type \<^verbatim>\<open>any\<close>: a string, an array of
  items, or something else.
\<close>

datatype message_content =
    StringContent string
  | ArrayContent "content_item list"
  | OtherContent

text \<open>
  One round of the \<^verbatim>\<open>for\<close> loop of lines 101 to 131. The result is the item pushed to
  \<^verbatim>\<open>processedContent\<close> (none when the item is skipped) and the buffers handed to
  \<^verbatim>\<open>compressImage\<close> in this round. \<^verbatim>\<open>Buffer.from(undefined, 'base64')\<close> throws a
  TypeError, which the \<^verbatim>\<open>catch\<close> of line 123 answers by skipping the item.
\<close>

definition process_item ::
  "'e image_lib \<Rightarrow> content_item \<Rightarrow> content_item option \<times> buffer list" where
  "process_item lib item =
     (case item of
        ImageItem (Some src) \<Rightarrow>
          if source_type src = base64 then
            (case data src of
               None \<Rightarrow> (None, [])
             | Some d \<Rightarrow>
                 let imageBuffer = from_base64 lib d in
                 if \<not> validateImageSize imageBuffer 5 then
                   (case (compressImage lib imageBuffer 5 :: unit error + buffer) of
                      Inl _ \<Rightarrow> (None, [imageBuffer])
                    | Inr compressedBuffer \<Rightarrow>
                        (Some (ImageItem (Some (src\<lparr>data := Some (to_base64 lib compressedBuffer)\<rparr>))),
                         [imageBuffer]))
                 else (Some item, []))
          else (Some item, [])
      | _ \<Rightarrow> (Some item, []))"

text \<open>The loop: \<^verbatim>\<open>processedContent\<close> and the log of compressions are carried along.\<close>

fun process_items ::
  "'e image_lib \<Rightarrow> content_item list \<Rightarrow> content_item list \<times> buffer list \<Rightarrow>
   content_item list \<times> buffer list" where
  "process_items lib [] (processedContent, compressed) = (processedContent, compressed)"
| "process_items lib (item # rest) (processedContent, compressed) =
     (case process_item lib item of
        (None, bs) \<Rightarrow> process_items lib rest (processedContent, compressed @ bs)
      | (Some item', bs) \<Rightarrow>
          process_items lib rest (processedContent @ [item'], compressed @ bs))"

text \<open>
  \<^verbatim>\<open>processMessageContent(content)\<close>, with the buffers that were handed to
  \<^verbatim>\<open>compressImage\<close> as second component.
\<close>

definition processMessageContent ::
  "'e image_lib \<Rightarrow> message_content \<Rightarrow> message_content \<times> buffer list" where
  "processMessageContent lib content' =
     (case content' of
        StringContent s \<Rightarrow> (StringContent s, [])
      | ArrayContent items \<Rightarrow>
          (case process_items lib items ([], []) of
             (processedContent, compressed) \<Rightarrow> (ArrayContent processedContent, compressed))
      | OtherContent \<Rightarrow> (OtherContent, []))"

subsection \<open>The conversation with the model\<close>

text \<open>
  The input of a \<^verbatim>\<open>write_file\<close> call is read as
  \<^verbatim>\<open>{ path?: string; content?: string }\<close>: either field may be undefined.
\<close>

record write_file_input =
  input_path :: "string option"
  input_content :: "string option"

text \<open>
  The blocks of a response: text, a tool invocation with its \<^verbatim>\<open>id\<close>, \<^verbatim>\<open>name\<close> and
  \<^verbatim>\<open>input\<close>, or a block of any other type.
\<close>

datatype block =
    TextBlock string
  | ToolUseBlock string string write_file_input
  | OtherBlock

text \<open>
  \<^verbatim>\<open>Anthropic.ToolResultBlockParam\<close>: \<^verbatim>\<open>is_error\<close> is set on the error result only.
\<close>

record tool_result =
  tool_use_id :: string
  result_content :: string
  is_error :: bool

datatype role = user | assistant

datatype message_body =
    Prompt message_content
  | Response "block list"
  | ToolResults "tool_result list"

datatype message = Message role message_body

text \<open>
  The two system prompts are fixed texts; only which of them is sent matters here.
\<close>

datatype system_prompt = UpdatePrompt | CreatePrompt

text \<open>
  \<^verbatim>\<open>client.messages.create({ model, max_tokens, system, tools, messages })\<close>: the model,
  the token limit and the tool list are constants, so a client is a function of the system
  prompt and the conversation. It answers with the \<^verbatim>\<open>content\<close> of the response or
  rejects with an error of type \<open>'u\<close>. The conversation grows with every call, so a function
  of the conversation can give any sequence of answers.
\<close>

type_synonym 'u client = "system_prompt \<Rightarrow> message list \<Rightarrow> 'u + block list"

subsection \<open>The file accumulator\<close>

text \<open>
  \<^verbatim>\<open>generatedFiles: Map<string, string>\<close>. A JavaScript \<^verbatim>\<open>Map\<close> keeps its keys in the
  order of their first insertion; \<^verbatim>\<open>set\<close> on a key that is present replaces its value in
  place. \<^verbatim>\<open>Array.from(m.entries())\<close> is then the list itself.
\<close>

type_synonym file_map = "(string \<times> string) list"

fun map_set :: "string \<Rightarrow> string \<Rightarrow> file_map \<Rightarrow> file_map" where
  "map_set k v [] = [(k, v)]"
| "map_set k v ((k', v') # m) = (if k' = k then (k, v) # m else (k', v') # map_set k v m)"

subsection \<open>Strings\<close>

definition nl :: string where
  "nl = [CHR 0x0A]"

text \<open>\<^verbatim>\<open>Array.prototype.join\<close>.\<close>

fun join :: "string \<Rightarrow> string list \<Rightarrow> string" where
  "join sep [] = []"
| "join sep [x] = x"
| "join sep (x # y # ys) = x @ sep @ join sep (y # ys)"

text \<open>A number inside a template literal: its decimal digits.\<close>

definition digit_char :: "nat \<Rightarrow> char" where
  "digit_char d = char_of (48 + d)"

fun string_of_nat :: "nat \<Rightarrow> string" where
  "string_of_nat n =
     (if n < 10 then [digit_char n] else string_of_nat (n div 10) @ [digit_char (n mod 10)])"

declare string_of_nat.simps [simp del]

subsection \<open>The agentic loop\<close>

definition is_tool_use :: "block \<Rightarrow> bool" where
  "is_tool_use b = (case b of ToolUseBlock _ _ _ \<Rightarrow> True | _ \<Rightarrow> False)"

definition success_result :: "string \<Rightarrow> string \<Rightarrow> string \<Rightarrow> tool_result" where
  "success_result tool_id p c =
     \<lparr>tool_use_id = tool_id,
      result_content =
        ''File '' @ p @ '' created successfully with '' @ string_of_nat (length c) @ '' characters'',
      is_error = False\<rparr>"

definition error_result :: "string \<Rightarrow> tool_result" where
  "error_result tool_id =
     \<lparr>tool_use_id = tool_id,
      result_content = ''Error: Incomplete file data. Please try again with a simpler request.'',
      is_error = True\<rparr>"

text \<open>
  Lines 231 to 254: what the inner loop does with one block of the response. It carries
  \<^verbatim>\<open>generatedFiles\<close> and \<^verbatim>\<open>toolResults\<close>. \<^verbatim>\<open>input.path && input.content\<close> holds when
  both strings are defined and not empty.
\<close>

fun process_block ::
  "block \<Rightarrow> file_map \<times> tool_result list \<Rightarrow> file_map \<times> tool_result list" where
  "process_block (ToolUseBlock tool_id name input) (generatedFiles, toolResults) =
     (if name = ''write_file'' then
        (case (input_path input, input_content input) of
           (Some p, Some c) \<Rightarrow>
             if p \<noteq> [] \<and> c \<noteq> []
             then (map_set p c generatedFiles, toolResults @ [success_result tool_id p c])
             else (generatedFiles, toolResults @ [error_result tool_id])
         | _ \<Rightarrow> (generatedFiles, toolResults @ [error_result tool_id]))
      else (generatedFiles, toolResults))"
| "process_block (TextBlock t) s = s"
| "process_block OtherBlock s = s"

text \<open>Lines 230 to 255: \<^verbatim>\<open>for (const block of response.content)\<close>.\<close>

fun process_blocks ::
  "block list \<Rightarrow> file_map \<times> tool_result list \<Rightarrow> file_map \<times> tool_result list" where
  "process_blocks [] s = s"
| "process_blocks (b # bs) s = process_blocks bs (process_block b s)"

text \<open>
  The state of the loop: the conversation \<^verbatim>\<open>messages\<close>, the accumulator
  \<^verbatim>\<open>generatedFiles\<close>, and a log \<open>requests\<close> of the conversations handed to
  \<^verbatim>\<open>client.messages.create\<close>, one entry for each call. The log is not a variable of the
  source; it records the calls so that they can be counted and inspected.
\<close>

record loop_state =
  messages :: "message list"
  generatedFiles :: file_map
  requests :: "message list list"

text \<open>
  Lines 217 to 264: what one round does with the response. The response is pushed to
  \<^verbatim>\<open>messages\<close>; if it holds a tool invocation, its blocks are processed and the tool
  results, if there are any, are pushed as one user message.
\<close>

definition handle_response :: "loop_state \<Rightarrow> block list \<Rightarrow> loop_state" where
  "handle_response st response =
     (let hasToolUse = list_ex is_tool_use response;
          st1 = st\<lparr>messages := messages st @ [Message assistant (Response response)]\<rparr>
      in if hasToolUse then
           (case process_blocks response (generatedFiles st1, []) of
              (gf, toolResults) \<Rightarrow>
                (let st2 = st1\<lparr>generatedFiles := gf\<rparr>
                 in if length toolResults > 0
                    then st2\<lparr>messages := messages st2 @ [Message user (ToolResults toolResults)]\<rparr>
                    else st2))
         else st1)"

text \<open>
  Lines 206 to 268: \<^verbatim>\<open>for (let i = 0; i < 10; i++)\<close>, left by \<^verbatim>\<open>break\<close> after a
  response without tool invocation. The result is the state when the loop is left and the
  error of the client, if the loop was left by one.
\<close>

function agentic_loop ::
  "'u client \<Rightarrow> system_prompt \<Rightarrow> nat \<Rightarrow> loop_state \<Rightarrow> loop_state \<times> 'u option" where
  "agentic_loop client systemPrompt i st =
     (if i < 10 then
        (let st1 = st\<lparr>requests := requests st @ [messages st]\<rparr> in
         case client systemPrompt (messages st) of
           Inl e \<Rightarrow> (st1, Some e)
         | Inr response \<Rightarrow>
             if list_ex is_tool_use response
             then agentic_loop client systemPrompt (i + 1) (handle_response st1 response)
             else (handle_response st1 response, None))
      else (st, None))"
  by pat_completeness auto
termination
  by (relation "measure (\<lambda>(client, systemPrompt, i, st). 10 - i)") auto

declare agentic_loop.simps [simp del]

subsection \<open>\<^verbatim>\<open>createApp\<close>\<close>

text \<open>Lines 146 to 153: the accumulator is seeded with the existing files.\<close>

definition seed_files :: "GeneratedFile list option \<Rightarrow> file_map" where
  "seed_files existingFiles =
     (case existingFiles of
        Some fs \<Rightarrow>
          if length fs > 0 then foldl (\<lambda>m file. map_set (path file) (content file) m) [] fs
          else []
      | None \<Rightarrow> [])"

definition isUpdate :: "GeneratedFile list option \<Rightarrow> bool" where
  "isUpdate existingFiles = (case existingFiles of Some fs \<Rightarrow> length fs > 0 | None \<Rightarrow> False)"

text \<open>Lines 184 to 193: the text of the first user message.\<close>

definition fence :: string where
  "fence = replicate 3 (CHR 0x60)"

definition userMessage :: "string \<Rightarrow> GeneratedFile list option \<Rightarrow> string" where
  "userMessage prompt existingFiles =
     (case existingFiles of
        Some fs \<Rightarrow>
          if length fs > 0 then
            (let filesContext =
               join (nl @ nl)
                 (map (\<lambda>file. ''File: '' @ path file @ nl @ fence @ nl @ content file @ nl @ fence) fs)
             in ''Here are the current files of the app:'' @ nl @ nl @ filesContext @ nl @ nl @
                ''User'' @ [CHR 0x27] @ ''s modification request: '' @ prompt)
          else prompt
      | None \<Rightarrow> prompt)"

text \<open>
  The state in which the loop is entered (lines 195 to 203) and the state in which it is
  left.
\<close>

definition initial_state ::
  "'e image_lib \<Rightarrow> string \<Rightarrow> GeneratedFile list option \<Rightarrow> loop_state" where
  "initial_state lib prompt existingFiles =
     (let processedContent =
            fst (processMessageContent lib (StringContent (userMessage prompt existingFiles)))
      in \<lparr>messages = [Message user (Prompt processedContent)],
          generatedFiles = seed_files existingFiles,
          requests = []\<rparr>)"

definition run_loop ::
  "'e image_lib \<Rightarrow> 'u client \<Rightarrow> string \<Rightarrow> GeneratedFile list option \<Rightarrow>
   loop_state \<times> 'u option" where
  "run_loop lib client prompt existingFiles =
     agentic_loop client (if isUpdate existingFiles then UpdatePrompt else CreatePrompt) 0
       (initial_state lib prompt existingFiles)"

text \<open>Lines 272 to 275: the entries of the accumulator as files.\<close>

definition files_of :: "file_map \<Rightarrow> GeneratedFile list" where
  "files_of m = map (\<lambda>(p, c). \<lparr>path = p, content = c\<rparr>) m"

text \<open>
  \<^verbatim>\<open>createApp(prompt, existingFiles?)\<close>. \<open>apiKey\<close> is
  \<^verbatim>\<open>process.env.ANTHROPIC_API_KEY\<close>; \<^verbatim>\<open>!apiKey\<close> holds when it is undefined or empty.
\<close>

definition createApp ::
  "string option \<Rightarrow> 'e image_lib \<Rightarrow> 'u client \<Rightarrow> string \<Rightarrow> GeneratedFile list option \<Rightarrow>
   'u error + AppGenerationResult" where
  "createApp apiKey lib client prompt existingFiles =
     (if apiKey = None \<or> apiKey = Some [] then Inl ApiKeyNotSet
      else
        (case run_loop lib client prompt existingFiles of
           (st, Some e) \<Rightarrow> Inl (UpstreamError e)
         | (st, None) \<Rightarrow>
             (let files = files_of (generatedFiles st)
              in if length files = 0 then Inl GenerationError
                 else Inr \<lparr>files = files\<rparr>)))"

subsection \<open>The specification's reading of the normalizer\<close>

text \<open>
  Section 4.1 of the specification: re-encode at decreasing quality, starting at 80 and in
  decrements of 10 down to the floor 10, and take the first output within the byte ceiling;
  fail with \<open>CompressionError\<close> when no level gives one. \<open>first_fit\<close> walks the levels in
  that order. It is written from the specification's words and compared with
  \<open>compressImage\<close> below.
\<close>

definition quality_levels :: "nat list" where
  "quality_levels = [80, 70, 60, 50, 40, 30, 20, 10]"

fun first_fit :: "(nat \<Rightarrow> 'e + buffer) \<Rightarrow> nat \<Rightarrow> nat list \<Rightarrow> 'u error + buffer" where
  "first_fit enc maxBytes [] = Inl CompressionError"
| "first_fit enc maxBytes (q # qs) =
     (case enc q of
        Inl e \<Rightarrow> Inl CompressionError
      | Inr b \<Rightarrow> if length b \<le> maxBytes then Inr b else first_fit enc maxBytes qs)"

text \<open>The levels from \<open>10 * Suc (Suc n)\<close> down to 10; \<open>quality_levels\<close> is \<open>levels_from 7\<close>.\<close>

fun levels_from :: "nat \<Rightarrow> nat list" where
  "levels_from 0 = [10]"
| "levels_from (Suc n) = 10 * Suc (Suc n) # levels_from n"

subsection \<open>Observations on a conversation\<close>

text \<open>
  The identifiers of the tool invocations of a response whose tool name satisfies \<open>needs\<close>,
  in the order of the blocks.
\<close>

fun invocation_ids :: "(string \<Rightarrow> bool) \<Rightarrow> block list \<Rightarrow> string list" where
  "invocation_ids needs [] = []"
| "invocation_ids needs (ToolUseBlock tool_id name input # bs) =
     (if needs name then tool_id # invocation_ids needs bs else invocation_ids needs bs)"
| "invocation_ids needs (b # bs) = invocation_ids needs bs"

text \<open>
  A conversation is answered, for the tool names in \<open>needs\<close>, when it is made of prompts of
  the user and responses of the assistant, every response is followed at once by one
  message of the user with tool results that holds exactly one result for each of its
  invocations, correlated by identifier and in their order, and by no such message when it
  has no invocation, and tool results occur nowhere else.
\<close>

fun answered :: "(string \<Rightarrow> bool) \<Rightarrow> message list \<Rightarrow> bool" where
  "answered needs [] = True"
| "answered needs (Message user (Prompt c) # ms) = answered needs ms"
| "answered needs (Message assistant (Response bs) # Message user (ToolResults trs) # ms) =
     (trs \<noteq> [] \<and> map tool_use_id trs = invocation_ids needs bs \<and> answered needs ms)"
| "answered needs (Message assistant (Response bs) # ms) =
     (invocation_ids needs bs = [] \<and> answered needs ms)"
| "answered needs (m # ms) = False"

text \<open>
  The \<^verbatim>\<open>write_file\<close> invocations of a conversation that give both a path and a content, in
  the order in which the model made them.
\<close>

fun block_invocation :: "block \<Rightarrow> (string \<times> string) list" where
  "block_invocation (ToolUseBlock tool_id name input) =
     (if name = ''write_file'' then
        (case (input_path input, input_content input) of
           (Some p, Some c) \<Rightarrow> [(p, c)]
         | _ \<Rightarrow> [])
      else [])"
| "block_invocation b = []"

fun message_invocations :: "message \<Rightarrow> (string \<times> string) list" where
  "message_invocations (Message r (Response bs)) = concat (map block_invocation bs)"
| "message_invocations m = []"

definition write_invocations :: "message list \<Rightarrow> (string \<times> string) list" where
  "write_invocations ms = concat (map message_invocations ms)"

text \<open>An invocation is complete when neither its path nor its content is empty.\<close>

definition complete :: "string \<times> string \<Rightarrow> bool" where
  "complete w = (fst w \<noteq> [] \<and> snd w \<noteq> [])"

text \<open>The accumulator after a list of writes, made in their order.\<close>

definition apply_writes :: "file_map \<Rightarrow> (string \<times> string) list \<Rightarrow> file_map" where
  "apply_writes m ws = foldl (\<lambda>m w. map_set (fst w) (snd w) m) m ws"

subsection \<open>Concrete collaborators\<close>

text \<open>
  An image library for the examples: every image is 4000 by 3000 pixels; an input of
  6000000 bytes is encoded to 100000 bytes for each point of quality, any other input is
  returned as it is.
\<close>

definition demo_lib :: "unit image_lib" where
  "demo_lib =
     \<lparr>metadata = (\<lambda>b. Inr (Some 4000, Some 3000)),
      resize_jpeg =
        (\<lambda>b w h q. if length b = 6000000 then Inr (replicate (q * 100000) 0) else Inr b),
      from_base64 =
        (\<lambda>s. if s = ''small'' then replicate 10 1
              else if s = ''big'' then replicate 6000000 0
              else replicate 7000000 0),
      to_base64 = (\<lambda>b. if length b = 5000000 then ''fits'' else ''other'')\<rparr>"

definition demo_image :: "string \<Rightarrow> content_item" where
  "demo_image d =
     ImageItem (Some \<lparr>source_type = base64, media_type = ''image/png'', data = Some d\<rparr>)"

text \<open>
  A model stub that plays a script: the call that finds \<open>n\<close> responses in the conversation
  is answered with entry \<open>n\<close> of the script, and with a text block once the script is over.
\<close>

fun is_response :: "message \<Rightarrow> bool" where
  "is_response (Message r (Response bs)) = True"
| "is_response m = False"

definition scripted :: "block list list \<Rightarrow> unit client" where
  "scripted script systemPrompt ms =
     (let n = length (filter is_response ms)
      in if n < length script then Inr (script ! n) else Inr [TextBlock ''done''])"

text \<open>A model stub that writes the same file in every response.\<close>

definition always_writes :: "unit client" where
  "always_writes systemPrompt ms =
     Inr [ToolUseBlock ''t'' ''write_file''
            \<lparr>input_path = Some ''a.html'', input_content = Some ''X''\<rparr>]"

definition write_call :: "string \<Rightarrow> string option \<Rightarrow> string option \<Rightarrow> block" where
  "write_call tool_id p c = ToolUseBlock tool_id ''write_file'' \<lparr>input_path = p, input_content = c\<rparr>"

section \<open>Properties\<close>

subsection \<open>The image normalizer\<close>

lemma math_round_div_le:
  assumes "0 < d" and "2 * n + d < 2 * d * Suc c"
  shows "math_round_div n d \<le> c"
proof -
  have "(2 * n + d) div (2 * d) < Suc c"
    using assms by (simp add: div_less_iff_less_mult mult.commute)
  then show ?thesis by (simp add: math_round_div_def)
qed

lemma math_round_div_near:
  assumes "0 < d"
  shows "2 * \<bar>int (math_round_div n d) * int d - int n\<bar> \<le> int d"
proof -
  define q where "q = (2 * n + d) div (2 * d)"
  define r where "r = (2 * n + d) mod (2 * d)"
  define x where "x = int q * int d"
  have "2 * d * q + r = 2 * n + d"
    unfolding q_def r_def by simp
  then have "int (2 * d * q + r) = int (2 * n + d)"
    by simp
  then have "2 * x + int r = 2 * int n + int d"
    by (simp add: x_def algebra_simps)
  moreover have "r < 2 * d"
    unfolding r_def using assms by simp
  then have "int r < 2 * int d" by linarith
  moreover have "0 \<le> int r" by simp
  ultimately have "x - int n \<le> int d - (x - int n)" and "- (x - int n) \<le> int d + (x - int n)"
    by linarith+
  then have "2 * \<bar>x - int n\<bar> \<le> int d"
    by (cases "0 \<le> x - int n") simp_all
  then show ?thesis by (simp add: math_round_div_def q_def x_def)
qed

text \<open>
  C8. For an image whose width and height are known (defined and not zero), the target
  width and height are both defined, neither exceeds the dimension it replaces, the longer
  of the two is at most 1024, and the aspect ratio is kept up to the rounding of one side:
  the cross products differ by at most half of the longer input side.
\<close>

theorem target_dimensions_never_upscale:
  assumes "w \<noteq> 0" and "h \<noteq> 0"
  shows "\<exists>tw th. target_dimensions (Some w) (Some h) = (Some tw, Some th) \<and>
           tw \<le> w \<and> th \<le> h \<and> max tw th \<le> 1024 \<and>
           2 * \<bar>int th * int w - int h * int tw\<bar> \<le> int (max w h)"
proof -
  consider (wide) "w > h" "w > 1024" | (tall) "\<not> w > h" "h > 1024"
    | (keep) "w \<le> 1024" "h \<le> 1024"
    by linarith
  then show ?thesis
  proof cases
    case wide
    let ?th = "math_round_div (h * 1024) w"
    have td: "target_dimensions (Some w) (Some h) = (Some 1024, Some ?th)"
      using wide assms by (simp add: target_dimensions_def maxDimension_def)
    have le_h: "?th \<le> h"
    proof (rule math_round_div_le)
      show "0 < w" using assms by simp
      have "h * 1024 \<le> h * w" using wide by simp
      moreover have "2 * w * Suc h = 2 * (h * w) + 2 * w" by (simp add: algebra_simps)
      ultimately show "2 * (h * 1024) + w < 2 * w * Suc h" using assms by linarith
    qed
    have le_cap: "?th \<le> 1024"
    proof (rule math_round_div_le)
      show "0 < w" using assms by simp
      show "2 * (h * 1024) + w < 2 * w * Suc 1024" using wide by simp
    qed
    have near: "2 * \<bar>int ?th * int w - int (h * 1024)\<bar> \<le> int w"
      using math_round_div_near [of w "h * 1024"] assms by simp
    show ?thesis using td le_h le_cap near wide by (simp add: max_def)
  next
    case tall
    let ?tw = "math_round_div (w * 1024) h"
    have td: "target_dimensions (Some w) (Some h) = (Some ?tw, Some 1024)"
      using tall assms by (simp add: target_dimensions_def maxDimension_def)
    have le_w: "?tw \<le> w"
    proof (rule math_round_div_le)
      show "0 < h" using assms by simp
      have "w * 1024 \<le> w * h" using tall by simp
      moreover have "2 * h * Suc w = 2 * (w * h) + 2 * h" by (simp add: algebra_simps)
      ultimately show "2 * (w * 1024) + h < 2 * h * Suc w" using assms by linarith
    qed
    have le_cap: "?tw \<le> 1024"
    proof (rule math_round_div_le)
      show "0 < h" using assms by simp
      show "2 * (w * 1024) + h < 2 * h * Suc 1024" using tall by simp
    qed
    have near: "2 * \<bar>int ?tw * int h - int (w * 1024)\<bar> \<le> int h"
      using math_round_div_near [of h "w * 1024"] assms by simp
    have "\<bar>1024 * int w - int h * int ?tw\<bar> = \<bar>int ?tw * int h - int (w * 1024)\<bar>"
      by (simp add: algebra_simps abs_minus_commute)
    then show ?thesis using td le_w le_cap near tall by (simp add: max_def)
  next
    case keep
    have td: "target_dimensions (Some w) (Some h) = (Some w, Some h)"
      using keep assms by (simp add: target_dimensions_def maxDimension_def)
    show ?thesis using td keep by (simp add: mult.commute)
  qed
qed

theorem target_dimensions_never_upscale_witness:
  "(4000 :: nat) \<noteq> 0 \<and> (3000 :: nat) \<noteq> 0 \<and>
   target_dimensions (Some 4000) (Some 3000) = (Some 1024, Some 768) \<and>
   (\<exists>tw th. target_dimensions (Some 4000) (Some 3000) = (Some tw, Some th) \<and>
      tw \<le> 4000 \<and> th \<le> 3000 \<and> max tw th \<le> 1024 \<and>
      2 * \<bar>int th * 4000 - 3000 * int tw\<bar> \<le> 4000)"
  using target_dimensions_never_upscale [of 4000 3000]
  by (simp add: target_dimensions_def maxDimension_def math_round_div_def)

lemma reduce_quality_stop:
  "length b \<le> m \<or> q \<le> 10 \<Longrightarrow> reduce_quality enc m q b = Inr b"
  by (subst reduce_quality.simps) auto

lemma reduce_quality_step:
  "m < length b \<Longrightarrow> 0 < q \<Longrightarrow>
   reduce_quality enc m (q + 10) b =
     (case enc q of Inl e \<Rightarrow> Inl e | Inr b' \<Rightarrow> reduce_quality enc m q b')"
  by (subst reduce_quality.simps) (simp split: sum.splits)

lemma first_fit_levels_rejected:
  "enc (10 * Suc n) = Inl e \<Longrightarrow> first_fit enc m (levels_from n) = Inl CompressionError"
  by (cases n) simp_all

lemma reduce_quality_first_fit:
  assumes "enc (10 * Suc n) = Inr b"
  shows "(case reduce_quality enc m (10 * Suc n) b of
            Inl e \<Rightarrow> Inl CompressionError
          | Inr b' \<Rightarrow> if length b' > m then Inl CompressionError else Inr b') =
         (first_fit enc m (levels_from n) :: 'u error + buffer)"
  using assms
proof (induction n arbitrary: b)
  case 0
  then show ?case by (simp add: reduce_quality_stop)
next
  case (Suc n)
  have spec: "(first_fit enc m (levels_from (Suc n)) :: 'u error + buffer) =
      (if length b \<le> m then Inr b else first_fit enc m (levels_from n))"
    using Suc.prems by simp
  show ?case
  proof (cases "length b \<le> m")
    case True
    then show ?thesis
      by (simp only: spec) (simp add: reduce_quality_stop)
  next
    case False
    then have over: "m < length b" by simp
    have "10 * Suc (Suc n) = 10 * Suc n + 10" by simp
    then have step: "reduce_quality enc m (10 * Suc (Suc n)) b =
        (case enc (10 * Suc n) of Inl e \<Rightarrow> Inl e
         | Inr b' \<Rightarrow> reduce_quality enc m (10 * Suc n) b')"
      using reduce_quality_step [OF over, of "10 * Suc n" enc] by simp
    show ?thesis
    proof (cases "enc (10 * Suc n)")
      case (Inl e)
      have "reduce_quality enc m (10 * Suc (Suc n)) b = Inl e"
        by (simp only: step Inl) simp
      moreover have "first_fit enc m (levels_from n) = (Inl CompressionError :: 'u error + buffer)"
        using Inl by (rule first_fit_levels_rejected)
      ultimately show ?thesis
        using False by (simp only: spec) simp
    next
      case (Inr b')
      have "reduce_quality enc m (10 * Suc (Suc n)) b = reduce_quality enc m (10 * Suc n) b'"
        by (simp only: step Inr) simp
      then show ?thesis
        using Suc.IH [OF Inr] False by (simp only: spec) simp
    qed
  qed
qed

lemma quality_levels_down: "quality_levels = levels_from 7"
  by (simp add: quality_levels_def eval_nat_numeral)

lemma first_fit_within:
  "(first_fit enc m qs :: 'u error + buffer) = Inr b \<Longrightarrow> length b \<le> m"
  by (induction qs) (auto split: sum.splits if_splits)

text \<open>
  C7. \<open>compressImage\<close> is the first fit over the quality levels 80, 70, ..., 10 of the
  re-encoding at the target dimensions: it returns the first encoding of at most
  \<open>maxSizeMB * 1024 * 1024\<close> bytes and fails with \<open>CompressionError\<close> when no level gives
  one (or when the library rejects the image). A buffer it returns is never over the
  ceiling.
\<close>

theorem compressImage_first_fit:
  "(compressImage lib imageBuffer maxSizeMB :: 'u error + buffer) =
     (case metadata lib imageBuffer of
        Inl e \<Rightarrow> Inl CompressionError
      | Inr (width0, height0) \<Rightarrow>
          (case target_dimensions width0 height0 of
             (width, height) \<Rightarrow>
               first_fit (resize_jpeg lib imageBuffer width height)
                 (maxSizeMB * 1024 * 1024) quality_levels)) \<and>
   (\<forall>b. (compressImage lib imageBuffer maxSizeMB :: 'u error + buffer) = Inr b \<longrightarrow>
        length b \<le> maxSizeMB * 1024 * 1024)"
proof -
  let ?m = "maxSizeMB * 1024 * 1024"
  let ?spec = "(case metadata lib imageBuffer of
        Inl e \<Rightarrow> Inl CompressionError
      | Inr (width0, height0) \<Rightarrow>
          (case target_dimensions width0 height0 of
             (width, height) \<Rightarrow>
               first_fit (resize_jpeg lib imageBuffer width height) ?m quality_levels))
      :: 'u error + buffer"
  have eq: "(compressImage lib imageBuffer maxSizeMB :: 'u error + buffer) = ?spec"
  proof (cases "metadata lib imageBuffer")
    case (Inl e)
    then show ?thesis by (simp add: compressImage_def compressImage_body_def)
  next
    case (Inr dims)
    obtain width0 height0 where dims: "dims = (width0, height0)" by (cases dims)
    obtain width height where td: "target_dimensions width0 height0 = (width, height)"
      by (cases "target_dimensions width0 height0")
    let ?enc = "resize_jpeg lib imageBuffer width height"
    show ?thesis
    proof (cases "?enc 80")
      case (Inl e)
      then show ?thesis
        using Inr dims td
        by (simp add: compressImage_def compressImage_body_def quality_levels_def)
    next
      case first: (Inr b)
      have "(compressImage lib imageBuffer maxSizeMB :: 'u error + buffer) =
            (case reduce_quality ?enc ?m 80 b of
               Inl e \<Rightarrow> Inl CompressionError
             | Inr b' \<Rightarrow> if length b' > ?m then Inl CompressionError else Inr b')"
        using Inr dims td first
        by (simp add: compressImage_def compressImage_body_def split: sum.splits)
      also have "\<dots> = (first_fit ?enc ?m quality_levels :: 'u error + buffer)"
        using reduce_quality_first_fit [of ?enc 7 b ?m] first
        by (simp only: quality_levels_down) simp
      also have "\<dots> = ?spec"
        using Inr dims td by simp
      finally show ?thesis .
    qed
  qed
  moreover have "\<forall>b. ?spec = Inr b \<longrightarrow> length b \<le> ?m"
    by (auto split: sum.splits prod.splits dest: first_fit_within)
  ultimately show ?thesis by simp
qed

theorem compressImage_first_fit_witness:
  "compressImage demo_lib (replicate 6000000 0) 5 =
     (Inr (replicate 5000000 0) :: unit error + buffer) \<and>
   length (replicate 5000000 (0 :: 8 word)) \<le> 5 * 1024 * 1024 \<and>
   compressImage demo_lib (replicate 7000000 0) 5 = (Inl CompressionError :: unit error + buffer)"
  using compressImage_first_fit [of demo_lib "replicate 6000000 0" 5, where ?'u = unit]
    compressImage_first_fit [of demo_lib "replicate 7000000 0" 5, where ?'u = unit]
  by (simp add: demo_lib_def target_dimensions_def maxDimension_def math_round_div_def
        quality_levels_def)

lemma process_items_eq:
  "process_items lib items (pc, cs) =
     (pc @ List.map_filter (\<lambda>i. fst (process_item lib i)) items,
      cs @ concat (map (\<lambda>i. snd (process_item lib i)) items))"
proof (induction items arbitrary: pc cs)
  case Nil
  show ?case by simp
next
  case (Cons item rest)
  show ?case
    by (cases "process_item lib item") (auto simp: Cons.IH split: option.splits)
qed

lemma process_item_log:
  "b \<in> set (snd (process_item lib item)) \<Longrightarrow> length b > 5 * 1024 * 1024"
  by (auto simp: process_item_def validateImageSize_def Let_def
      split: content_item.splits option.splits if_splits sum.splits)

text \<open>
  C9. \<open>validateImageSize\<close> holds exactly for the buffers of at most
  \<open>maxSizeMB * 1024 * 1024\<close> bytes. \<open>processMessageContent\<close> maps the items of an array in
  their order, each through \<open>process_item\<close>, and leaves out those that give no item. Every
  buffer it hands to \<open>compressImage\<close> is over 5 MB. What \<open>process_item\<close> gives is fixed for
  every item:
  \<^item> an item that is not an image, an image without source and an image whose source is
    not base64 are passed on as they are, and nothing is compressed;
  \<^item> a base64 image whose decoded payload is within 5 MB is passed on as it is, and
    nothing is compressed;
  \<^item> a base64 image whose decoded payload is over 5 MB is passed on with the compressed
    payload if \<open>compressImage\<close> succeeds and is left out if it fails;
  \<^item> a base64 image whose payload is undefined cannot be decoded
    (\<^verbatim>\<open>Buffer.from\<close> throws) and is left out in the same way.
\<close>

theorem processMessageContent_images:
  "validateImageSize b m = (length b \<le> m * 1024 * 1024) \<and>
   processMessageContent lib (ArrayContent items) =
     (ArrayContent (List.map_filter (\<lambda>i. fst (process_item lib i)) items),
      concat (map (\<lambda>i. snd (process_item lib i)) items)) \<and>
   (\<forall>c \<in> set (snd (processMessageContent lib content')). length c > 5 * 1024 * 1024) \<and>
   process_item lib (TextItem t) = (Some (TextItem t), []) \<and>
   process_item lib (ImageItem None) = (Some (ImageItem None), []) \<and>
   (source_type src \<noteq> base64 \<longrightarrow>
      process_item lib (ImageItem (Some src)) = (Some (ImageItem (Some src)), [])) \<and>
   (source_type src = base64 \<and> data src = None \<longrightarrow>
      process_item lib (ImageItem (Some src)) = (None, [])) \<and>
   (\<forall>d. source_type src = base64 \<and> data src = Some d \<longrightarrow>
      (if length (from_base64 lib d) \<le> 5 * 1024 * 1024
       then process_item lib (ImageItem (Some src)) = (Some (ImageItem (Some src)), [])
       else process_item lib (ImageItem (Some src)) =
              (case (compressImage lib (from_base64 lib d) 5 :: unit error + buffer) of
                 Inr cb \<Rightarrow> (Some (ImageItem (Some (src\<lparr>data := Some (to_base64 lib cb)\<rparr>))),
                            [from_base64 lib d])
               | Inl e \<Rightarrow> (None, [from_base64 lib d]))))"
proof (intro conjI)
  show "validateImageSize b m = (length b \<le> m * 1024 * 1024)"
    by (simp add: validateImageSize_def)
  show "processMessageContent lib (ArrayContent items) =
     (ArrayContent (List.map_filter (\<lambda>i. fst (process_item lib i)) items),
      concat (map (\<lambda>i. snd (process_item lib i)) items))"
    by (simp add: processMessageContent_def process_items_eq)
  show "\<forall>c \<in> set (snd (processMessageContent lib content')). length c > 5 * 1024 * 1024"
  proof (cases content')
    case (StringContent s)
    then show ?thesis by (simp add: processMessageContent_def)
  next
    case (ArrayContent xs)
    then show ?thesis
      using process_item_log [of _ lib]
      by (auto simp: processMessageContent_def process_items_eq)
  next
    case OtherContent
    then show ?thesis by (simp add: processMessageContent_def)
  qed
  show "process_item lib (TextItem t) = (Some (TextItem t), [])"
    by (simp add: process_item_def)
  show "process_item lib (ImageItem None) = (Some (ImageItem None), [])"
    by (simp add: process_item_def)
  show "source_type src \<noteq> base64 \<longrightarrow>
      process_item lib (ImageItem (Some src)) = (Some (ImageItem (Some src)), [])"
    by (simp add: process_item_def)
  show "source_type src = base64 \<and> data src = None \<longrightarrow>
      process_item lib (ImageItem (Some src)) = (None, [])"
    by (simp add: process_item_def)
  show "\<forall>d. source_type src = base64 \<and> data src = Some d \<longrightarrow>
      (if length (from_base64 lib d) \<le> 5 * 1024 * 1024
       then process_item lib (ImageItem (Some src)) = (Some (ImageItem (Some src)), [])
       else process_item lib (ImageItem (Some src)) =
              (case (compressImage lib (from_base64 lib d) 5 :: unit error + buffer) of
                 Inr cb \<Rightarrow> (Some (ImageItem (Some (src\<lparr>data := Some (to_base64 lib cb)\<rparr>))),
                            [from_base64 lib d])
               | Inl e \<Rightarrow> (None, [from_base64 lib d])))"
    by (auto simp: process_item_def validateImageSize_def Let_def split: sum.splits)
qed

theorem processMessageContent_images_witness:
  "processMessageContent demo_lib
     (ArrayContent
        [TextItem ''hi'', demo_image ''small'', demo_image ''huge'',
         ImageItem (Some \<lparr>source_type = url, media_type = ''image/png'', data = None\<rparr>),
         demo_image ''big'', ImageItem None,
         ImageItem (Some \<lparr>source_type = base64, media_type = ''image/png'', data = None\<rparr>),
         TextItem ''bye'']) =
     (ArrayContent
        [TextItem ''hi'', demo_image ''small'',
         ImageItem (Some \<lparr>source_type = url, media_type = ''image/png'', data = None\<rparr>),
         demo_image ''fits'', ImageItem None, TextItem ''bye''],
      [replicate 7000000 0, replicate 6000000 0])"
  using processMessageContent_images [of "[]" 5 demo_lib
      "[TextItem ''hi'', demo_image ''small'', demo_image ''huge'',
         ImageItem (Some \<lparr>source_type = url, media_type = ''image/png'', data = None\<rparr>),
         demo_image ''big'', ImageItem None,
         ImageItem (Some \<lparr>source_type = base64, media_type = ''image/png'', data = None\<rparr>),
         TextItem ''bye'']"
      "StringContent []" "''hi''"
      "\<lparr>source_type = base64, media_type = ''image/png'', data = Some ''small''\<rparr>"]
  by (simp add: process_item_def demo_image_def demo_lib_def
        validateImageSize_def compressImage_def compressImage_body_def
        target_dimensions_def maxDimension_def math_round_div_def reduce_quality.simps)

subsection \<open>The accumulator\<close>

lemma map_of_map_set: "map_of (map_set k v m) = (map_of m)(k \<mapsto> v)"
  by (induction m) (auto simp: fun_eq_iff)

lemma keys_map_set:
  "map fst (map_set k v m) = (if k \<in> fst ` set m then map fst m else map fst m @ [k])"
  by (induction m) force+

lemma distinct_map_set: "distinct (map fst m) \<Longrightarrow> distinct (map fst (map_set k v m))"
  by (simp add: keys_map_set)

lemma map_set_fresh: "k \<notin> fst ` set m \<Longrightarrow> map_set k v m = m @ [(k, v)]"
  by (induction m) auto


lemma map_set_not_Nil: "map_set k v m \<noteq> []"
  by (cases m) (auto split: if_splits)

lemma distinct_apply_writes:
  "distinct (map fst m) \<Longrightarrow> distinct (map fst (apply_writes m ws))"
  unfolding apply_writes_def
  by (induction ws arbitrary: m) (simp_all add: distinct_map_set)

lemma apply_writes_append:
  "apply_writes m (ws @ ws') = apply_writes (apply_writes m ws) ws'"
  by (simp add: apply_writes_def)

lemma map_of_apply_writes_other:
  "p \<notin> fst ` set ws \<Longrightarrow> map_of (apply_writes m ws) p = map_of m p"
  unfolding apply_writes_def
  by (induction ws arbitrary: m) (auto simp: map_of_map_set)

lemma map_of_apply_writes_last:
  assumes "p \<notin> fst ` set ws2"
  shows "map_of (apply_writes m (ws1 @ (p, c) # ws2)) p = Some c"
proof -
  have "apply_writes m (ws1 @ (p, c) # ws2) =
        apply_writes (map_set p c (apply_writes m ws1)) ws2"
    by (simp add: apply_writes_def)
  then show ?thesis
    using assms by (simp add: map_of_apply_writes_other map_of_map_set)
qed


lemma seed_files_writes:
  "seed_files existingFiles =
     apply_writes [] (map (\<lambda>file. (path file, content file)) (case existingFiles of Some fs \<Rightarrow> fs | None \<Rightarrow> []))"
proof -
  have "foldl (\<lambda>m file. map_set (path file) (content file) m) m fs =
        apply_writes m (map (\<lambda>file. (path file, content file)) fs)" for m and fs :: "GeneratedFile list"
    unfolding apply_writes_def by (induction fs arbitrary: m) simp_all
  then show ?thesis
    by (auto simp: seed_files_def apply_writes_def split: option.splits)
qed

lemma distinct_seed_files: "distinct (map fst (seed_files existingFiles))"
  by (simp add: seed_files_writes distinct_apply_writes)

lemma apply_writes_fresh:
  "distinct (map fst m @ map fst ws) \<Longrightarrow> apply_writes m ws = m @ ws"
  unfolding apply_writes_def
proof (induction ws arbitrary: m)
  case Nil
  show ?case by simp
next
  case (Cons w ws)
  have fresh: "fst w \<notin> fst ` set m" using Cons.prems by auto
  have "distinct (map fst (m @ [w]) @ map fst ws)" using Cons.prems by auto
  then show ?case
    using Cons.IH [of "m @ [w]"] fresh by (simp add: map_set_fresh)
qed

lemma files_of_seed_distinct:
  assumes "distinct (map path fs)"
  shows "files_of (seed_files (Some fs)) = fs"
proof -
  have "map fst (map (\<lambda>file. (path file, content file)) fs) = map path fs"
    by (simp add: comp_def)
  then have "distinct (map fst [] @ map fst (map (\<lambda>file. (path file, content file)) fs))"
    using assms by (simp only:) simp
  then have "apply_writes [] (map (\<lambda>file. (path file, content file)) fs) =
      [] @ map (\<lambda>file. (path file, content file)) fs"
    by (rule apply_writes_fresh)
  moreover have "map (\<lambda>x. \<lparr>path = path x, content = content x\<rparr>) fs = fs"
    by (induction fs) simp_all
  ultimately show ?thesis
    by (simp add: seed_files_writes files_of_def comp_def)
qed

subsection \<open>One response\<close>

lemma process_block_ids:
  "map tool_use_id (snd (process_block b (gf, trs))) =
     map tool_use_id trs @ invocation_ids (\<lambda>n. n = ''write_file'') [b]"
  by (cases b)
     (auto simp: success_result_def error_result_def split: option.splits)

lemma invocation_ids_Cons:
  "invocation_ids needs (b # bs) = invocation_ids needs [b] @ invocation_ids needs bs"
  by (cases b) auto

lemma process_blocks_ids:
  "map tool_use_id (snd (process_blocks bs (gf, trs))) =
     map tool_use_id trs @ invocation_ids (\<lambda>n. n = ''write_file'') bs"
proof (induction bs arbitrary: gf trs)
  case Nil
  show ?case by simp
next
  case (Cons b bs)
  obtain gf' trs' where step: "process_block b (gf, trs) = (gf', trs')"
    by (cases "process_block b (gf, trs)")
  have "map tool_use_id trs' = map tool_use_id trs @ invocation_ids (\<lambda>n. n = ''write_file'') [b]"
    using process_block_ids [of b gf trs] step by simp
  then show ?case
    using Cons.IH [of gf' trs'] step invocation_ids_Cons [of "\<lambda>n. n = ''write_file''" b bs]
    by simp
qed

lemma process_block_files:
  "fst (process_block b (gf, trs)) = apply_writes gf (filter complete (block_invocation b))"
proof (cases b)
  case (TextBlock t)
  then show ?thesis by (simp add: apply_writes_def)
next
  case (ToolUseBlock tool_id name inp)
  then show ?thesis
    by (cases "name = ''write_file''"; cases "input_path inp"; cases "input_content inp")
       (simp_all add: apply_writes_def complete_def)
next
  case OtherBlock
  then show ?thesis by (simp add: apply_writes_def)
qed

lemma process_blocks_files:
  "fst (process_blocks bs (gf, trs)) =
     apply_writes gf (filter complete (concat (map block_invocation bs)))"
proof (induction bs arbitrary: gf trs)
  case Nil
  show ?case by (simp add: apply_writes_def)
next
  case (Cons b bs)
  obtain gf' trs' where step: "process_block b (gf, trs) = (gf', trs')"
    by (cases "process_block b (gf, trs)")
  have "gf' = apply_writes gf (filter complete (block_invocation b))"
    using process_block_files [of b gf trs] step by simp
  then show ?case
    using Cons.IH [of gf' trs'] step by (simp add: apply_writes_append)
qed




lemma no_tool_use_no_invocation:
  "\<not> list_ex is_tool_use bs \<Longrightarrow> concat (map block_invocation bs) = []"
proof (induction bs)
  case Nil
  show ?case by simp
next
  case (Cons b bs)
  then show ?case by (cases b) (simp_all add: is_tool_use_def)
qed

lemma no_tool_use_no_ids:
  "\<not> list_ex is_tool_use bs \<Longrightarrow> invocation_ids needs bs = []"
proof (induction bs)
  case Nil
  show ?case by simp
next
  case (Cons b bs)
  then show ?case by (cases b) (simp_all add: is_tool_use_def)
qed

lemma handle_response_requests: "requests (handle_response st r) = requests st"
  by (simp add: handle_response_def Let_def split: prod.splits)

lemma handle_response_files:
  "generatedFiles (handle_response st r) =
     apply_writes (generatedFiles st) (filter complete (concat (map block_invocation r)))"
proof (cases "list_ex is_tool_use r")
  case True
  obtain gf trs where pb: "process_blocks r (generatedFiles st, []) = (gf, trs)"
    by (cases "process_blocks r (generatedFiles st, [])")
  have "gf = apply_writes (generatedFiles st) (filter complete (concat (map block_invocation r)))"
    using process_blocks_files [of r "generatedFiles st" "[]"] pb by simp
  then show ?thesis
    using True pb by (simp add: handle_response_def Let_def)
next
  case False
  then show ?thesis
    by (simp add: handle_response_def Let_def no_tool_use_no_invocation apply_writes_def)
qed

lemma handle_response_messages:
  "\<exists>trs. map tool_use_id trs = invocation_ids (\<lambda>n. n = ''write_file'') r \<and>
         messages (handle_response st r) =
           messages st @ Message assistant (Response r) #
             (if trs = [] then [] else [Message user (ToolResults trs)])"
proof (cases "list_ex is_tool_use r")
  case True
  obtain gf trs where pb: "process_blocks r (generatedFiles st, []) = (gf, trs)"
    by (cases "process_blocks r (generatedFiles st, [])")
  have "map tool_use_id trs = invocation_ids (\<lambda>n. n = ''write_file'') r"
    using process_blocks_ids [of r "generatedFiles st" "[]"] pb by simp
  moreover have "messages (handle_response st r) =
           messages st @ Message assistant (Response r) #
             (if trs = [] then [] else [Message user (ToolResults trs)])"
    using True pb by (simp add: handle_response_def Let_def)
  ultimately show ?thesis by blast
next
  case False
  have "map tool_use_id [] = invocation_ids (\<lambda>n. n = ''write_file'') r"
    using False by (simp add: no_tool_use_no_ids)
  moreover have "messages (handle_response st r) =
           messages st @ Message assistant (Response r) #
             (if ([] :: tool_result list) = [] then [] else [Message user (ToolResults [])])"
    using False by (simp add: handle_response_def Let_def)
  ultimately show ?thesis by blast
qed

lemma handle_response_invocations:
  "write_invocations (messages (handle_response st r)) =
     write_invocations (messages st) @ concat (map block_invocation r)"
proof -
  obtain trs where "messages (handle_response st r) =
           messages st @ Message assistant (Response r) #
             (if trs = [] then [] else [Message user (ToolResults trs)])"
    using handle_response_messages [of r st] by blast
  then show ?thesis
    by (simp add: write_invocations_def)
qed

subsection \<open>The loop\<close>

lemma loop_stop: "\<not> i < 10 \<Longrightarrow> agentic_loop c s i st = (st, None)"
  by (subst agentic_loop.simps) simp

lemma loop_error:
  "i < 10 \<Longrightarrow> c s (messages st) = Inl e \<Longrightarrow>
   agentic_loop c s i st = (st\<lparr>requests := requests st @ [messages st]\<rparr>, Some e)"
  by (subst agentic_loop.simps) simp

lemma loop_continue:
  "i < 10 \<Longrightarrow> c s (messages st) = Inr r \<Longrightarrow> list_ex is_tool_use r \<Longrightarrow>
   agentic_loop c s i st =
     agentic_loop c s (i + 1) (handle_response (st\<lparr>requests := requests st @ [messages st]\<rparr>) r)"
  by (subst agentic_loop.simps) simp

lemma loop_break:
  "i < 10 \<Longrightarrow> c s (messages st) = Inr r \<Longrightarrow> \<not> list_ex is_tool_use r \<Longrightarrow>
   agentic_loop c s i st =
     (handle_response (st\<lparr>requests := requests st @ [messages st]\<rparr>) r, None)"
  by (subst agentic_loop.simps) simp

text \<open>
  A property of the state that each call of the client and each handling of a response
  keep holds when the loop is left.
\<close>

lemma agentic_loop_invariant:
  assumes "P st"
    and log: "\<And>st. P st \<Longrightarrow> P (st\<lparr>requests := requests st @ [messages st]\<rparr>)"
    and resp: "\<And>st r. P st \<Longrightarrow> P (handle_response st r)"
  shows "P (fst (agentic_loop c s i st))"
  using assms(1)
proof (induction c s i st rule: agentic_loop.induct)
  case (1 c s i st)
  let ?st1 = "st\<lparr>requests := requests st @ [messages st]\<rparr>"
  have P1: "P ?st1" using "1.prems" by (rule log)
  show ?case
  proof (cases "i < 10")
    case False
    then show ?thesis using "1.prems" by (simp add: loop_stop)
  next
    case True
    show ?thesis
    proof (cases "c s (messages st)")
      case (Inl e)
      then show ?thesis using True P1 by (simp add: loop_error)
    next
      case (Inr r)
      show ?thesis
      proof (cases "list_ex is_tool_use r")
        case False
        then show ?thesis
          using True Inr resp [OF P1, of r] by (simp add: loop_break)
      next
        case tool: True
        have "P (fst (agentic_loop c s (i + 1) (handle_response ?st1 r)))"
          using "1.IH" [OF True refl Inr tool] resp [OF P1, of r] by simp
        then show ?thesis
          using True Inr tool by (simp add: loop_continue)
      qed
    qed
  qed
qed

lemma agentic_loop_requests:
  "length (requests (fst (agentic_loop c s i st))) \<le> length (requests st) + (10 - i)"
proof (induction c s i st rule: agentic_loop.induct)
  case (1 c s i st)
  let ?st1 = "st\<lparr>requests := requests st @ [messages st]\<rparr>"
  show ?case
  proof (cases "i < 10")
    case False
    then show ?thesis by (simp add: loop_stop)
  next
    case True
    show ?thesis
    proof (cases "c s (messages st)")
      case (Inl e)
      then show ?thesis using True by (simp add: loop_error)
    next
      case (Inr r)
      show ?thesis
      proof (cases "list_ex is_tool_use r")
        case False
        then show ?thesis
          using True Inr by (simp add: loop_break handle_response_requests)
      next
        case tool: True
        have "length (requests (fst (agentic_loop c s (i + 1) (handle_response ?st1 r))))
              \<le> length (requests (handle_response ?st1 r)) + (10 - (i + 1))"
          using "1.IH" [OF True refl Inr tool] by simp
        then show ?thesis
          using True Inr tool by (simp add: loop_continue handle_response_requests)
      qed
    qed
  qed
qed

lemmas run_defs =
  createApp_def run_loop_def initial_state_def processMessageContent_def userMessage_def
  isUpdate_def seed_files_def files_of_def agentic_loop.simps handle_response_def
  scripted_def always_writes_def write_call_def is_tool_use_def

subsection \<open>Round trips and the result of \<^verbatim>\<open>createApp\<close>\<close>

text \<open>
  C1. The loop calls the client at most 10 times, whatever the client answers. If the first
  answer holds no tool invocation, the loop is left without error after exactly one call,
  and the accumulator is the one it was seeded with.
\<close>

theorem agentic_loop_round_trips:
  "length (requests (fst (run_loop lib client prompt existingFiles))) \<le> 10 \<and>
   (\<forall>response.
      client (if isUpdate existingFiles then UpdatePrompt else CreatePrompt)
        (messages (initial_state lib prompt existingFiles)) = Inr response \<and>
      \<not> list_ex is_tool_use response \<longrightarrow>
      snd (run_loop lib client prompt existingFiles) = None \<and>
      length (requests (fst (run_loop lib client prompt existingFiles))) = 1 \<and>
      generatedFiles (fst (run_loop lib client prompt existingFiles)) =
        seed_files existingFiles)"
proof (intro conjI allI impI)
  have "requests (initial_state lib prompt existingFiles) = []"
    by (simp add: initial_state_def)
  then show "length (requests (fst (run_loop lib client prompt existingFiles))) \<le> 10"
    using agentic_loop_requests
      [of client "if isUpdate existingFiles then UpdatePrompt else CreatePrompt" 0
         "initial_state lib prompt existingFiles"]
    by (simp add: run_loop_def)
next
  fix response
  let ?sys = "if isUpdate existingFiles then UpdatePrompt else CreatePrompt"
  let ?st = "initial_state lib prompt existingFiles"
  assume a: "client ?sys (messages ?st) = Inr response \<and> \<not> list_ex is_tool_use response"
  have run: "run_loop lib client prompt existingFiles =
      (handle_response (?st\<lparr>requests := requests ?st @ [messages ?st]\<rparr>) response, None)"
    unfolding run_loop_def using a by (intro loop_break) simp_all
  have seed: "generatedFiles ?st = seed_files existingFiles" and req: "requests ?st = []"
    by (simp_all add: initial_state_def)
  show "snd (run_loop lib client prompt existingFiles) = None"
    by (simp add: run)
  show "length (requests (fst (run_loop lib client prompt existingFiles))) = 1"
    by (simp add: run handle_response_requests req)
  show "generatedFiles (fst (run_loop lib client prompt existingFiles)) =
        seed_files existingFiles"
    using a by (simp add: run handle_response_files no_tool_use_no_invocation seed
        apply_writes_def)
qed

theorem agentic_loop_round_trips_witness:
  "snd (run_loop demo_lib (scripted []) ''a countdown timer''
          (Some [\<lparr>path = ''index.html'', content = ''OLD''\<rparr>])) = None \<and>
   length (requests (fst (run_loop demo_lib (scripted []) ''a countdown timer''
          (Some [\<lparr>path = ''index.html'', content = ''OLD''\<rparr>])))) = 1 \<and>
   generatedFiles (fst (run_loop demo_lib (scripted []) ''a countdown timer''
          (Some [\<lparr>path = ''index.html'', content = ''OLD''\<rparr>]))) = [(''index.html'', ''OLD'')]"
  using agentic_loop_round_trips [of demo_lib "scripted []" "''a countdown timer''"
      "Some [\<lparr>path = ''index.html'', content = ''OLD''\<rparr>]"]
  by (simp add: scripted_def is_tool_use_def seed_files_def)



text \<open>
  C4. In update mode the existing files are a file set of the data model: not empty, and
  with pairwise distinct paths (every list that a caller passes is the \<open>files\<close> of a stored
  project, which \<open>createApp\<close> returned). If the first answer of the model holds no tool
  invocation, \<open>createApp\<close> returns exactly the existing files, paths and contents unchanged
  and in their order.
\<close>

theorem createApp_update_unchanged:
  assumes "apiKey = Some k" and "k \<noteq> []"
    and "fs \<noteq> []" and "distinct (map path fs)"
    and "client UpdatePrompt (messages (initial_state lib prompt (Some fs))) = Inr response"
    and "\<not> list_ex is_tool_use response"
  shows "createApp apiKey lib client prompt (Some fs) = Inr \<lparr>files = fs\<rparr>"
proof -
  let ?st = "initial_state lib prompt (Some fs)"
  have upd: "isUpdate (Some fs)" using assms(3) by (simp add: isUpdate_def)
  have run: "run_loop lib client prompt (Some fs) =
      (handle_response (?st\<lparr>requests := requests ?st @ [messages ?st]\<rparr>) response, None)"
    unfolding run_loop_def using assms(5,6) upd by (intro loop_break) simp_all
  have "generatedFiles (handle_response (?st\<lparr>requests := requests ?st @ [messages ?st]\<rparr>) response)
        = seed_files (Some fs)"
    using assms(6)
    by (simp add: handle_response_files no_tool_use_no_invocation apply_writes_def
        initial_state_def)
  moreover have "files_of (seed_files (Some fs)) = fs"
    using assms(4) by (rule files_of_seed_distinct)
  ultimately show ?thesis
    using assms(1,2,3) by (simp add: createApp_def run)
qed

theorem createApp_update_unchanged_witness:
  "createApp (Some ''key'') demo_lib (scripted []) ''make it blue''
     (Some [\<lparr>path = ''index.html'', content = ''OLD''\<rparr>]) =
     Inr \<lparr>files = [\<lparr>path = ''index.html'', content = ''OLD''\<rparr>]\<rparr>"
  using createApp_update_unchanged [of "Some ''key''" "''key''"
      "[\<lparr>path = ''index.html'', content = ''OLD''\<rparr>]" "scripted []" demo_lib
      "''make it blue''" "[TextBlock ''done'']"]
  by (simp add: scripted_def is_tool_use_def)

subsection \<open>Writes\<close>

lemma loop_files_are_writes:
  assumes "generatedFiles st = apply_writes seed (filter complete (write_invocations (messages st)))"
  shows "generatedFiles (fst (agentic_loop c s i st)) =
         apply_writes seed
           (filter complete (write_invocations (messages (fst (agentic_loop c s i st)))))"
proof (rule agentic_loop_invariant
    [where P = "\<lambda>st. generatedFiles st =
        apply_writes seed (filter complete (write_invocations (messages st)))"])
  show "generatedFiles st = apply_writes seed (filter complete (write_invocations (messages st)))"
    by (rule assms)
next
  fix st :: loop_state
  assume "generatedFiles st = apply_writes seed (filter complete (write_invocations (messages st)))"
  then show "generatedFiles (st\<lparr>requests := requests st @ [messages st]\<rparr>) =
      apply_writes seed (filter complete (write_invocations
        (messages (st\<lparr>requests := requests st @ [messages st]\<rparr>))))"
    by simp
next
  fix st :: loop_state and r
  assume "generatedFiles st = apply_writes seed (filter complete (write_invocations (messages st)))"
  then show "generatedFiles (handle_response st r) =
      apply_writes seed (filter complete (write_invocations (messages (handle_response st r))))"
    by (simp add: handle_response_files handle_response_invocations apply_writes_append)
qed

lemma run_loop_files_are_writes:
  "generatedFiles (fst (run_loop lib client prompt existingFiles)) =
     apply_writes (seed_files existingFiles)
       (filter complete
          (write_invocations (messages (fst (run_loop lib client prompt existingFiles)))))"
  unfolding run_loop_def
  by (rule loop_files_are_writes)
     (simp add: initial_state_def write_invocations_def apply_writes_def)

lemma createApp_result:
  assumes "createApp apiKey lib client prompt existingFiles = Inr result"
  shows "files result = files_of (generatedFiles (fst (run_loop lib client prompt existingFiles)))"
proof -
  obtain st err where run: "run_loop lib client prompt existingFiles = (st, err)"
    by (cases "run_loop lib client prompt existingFiles")
  show ?thesis
    using assms by (cases err) (auto simp: createApp_def run Let_def split: if_splits)
qed

text \<open>
  C3, as the claim states it, fails when the later invocation has an empty content: the
  model writes \<open>a.html\<close> with content \<open>X\<close> and then \<open>a.html\<close> with the empty content, and the
  final content of \<open>a.html\<close> is \<open>X\<close>.
\<close>

theorem createApp_last_write_wins_counterexample:
  "write_invocations (messages (fst (run_loop demo_lib
       (scripted [[write_call ''t1'' (Some ''a.html'') (Some ''X'')],
                  [write_call ''t2'' (Some ''a.html'') (Some [])]])
       ''a countdown timer'' None))) = [(''a.html'', ''X''), (''a.html'', [])] \<and>
   createApp (Some ''key'') demo_lib
       (scripted [[write_call ''t1'' (Some ''a.html'') (Some ''X'')],
                  [write_call ''t2'' (Some ''a.html'') (Some [])]])
       ''a countdown timer'' None = Inr \<lparr>files = [\<lparr>path = ''a.html'', content = ''X''\<rparr>]\<rparr>"
  by (simp add: run_defs write_invocations_def)

text \<open>
  C3, amended. Among the complete \<^verbatim>\<open>write_file\<close> invocations of the conversation (path
  and content both given and not empty), in the same response or in different ones, the
  last one for a path decides the content that \<open>createApp\<close> returns for that path, and
  each path occurs at most once in the returned files.
\<close>

theorem createApp_last_write_wins:
  assumes "createApp apiKey lib client prompt existingFiles = Inr result"
  shows "distinct (map path (files result)) \<and>
         (\<forall>ws1 p c ws2.
            filter complete
              (write_invocations (messages (fst (run_loop lib client prompt existingFiles)))) =
              ws1 @ (p, c) # ws2 \<and> p \<notin> fst ` set ws2 \<longrightarrow>
            \<lparr>path = p, content = c\<rparr> \<in> set (files result) \<and>
            (\<forall>file \<in> set (files result). path file = p \<longrightarrow> content file = c))"
proof -
  let ?st = "fst (run_loop lib client prompt existingFiles)"
  let ?ws = "filter complete (write_invocations (messages ?st))"
  have res: "files result = files_of (generatedFiles ?st)"
    using assms by (rule createApp_result)
  have gf: "generatedFiles ?st = apply_writes (seed_files existingFiles) ?ws"
    by (rule run_loop_files_are_writes)
  have dist: "distinct (map fst (generatedFiles ?st))"
    by (simp only: gf) (rule distinct_apply_writes, rule distinct_seed_files)
  have paths: "map path (files_of m) = map fst m" for m
    by (induction m) (auto simp: files_of_def)
  have d: "distinct (map path (files result))"
    using dist by (simp add: res paths)
  have w: "\<lparr>path = p, content = c\<rparr> \<in> set (files result) \<and>
           (\<forall>file \<in> set (files result). path file = p \<longrightarrow> content file = c)"
    if split: "?ws = ws1 @ (p, c) # ws2" and last: "p \<notin> fst ` set ws2" for ws1 p c ws2
  proof -
    have look: "map_of (generatedFiles ?st) p = Some c"
      using last by (simp only: gf split) (rule map_of_apply_writes_last)
    then have "(p, c) \<in> set (generatedFiles ?st)"
      by (rule map_of_SomeD)
    then have "\<lparr>path = p, content = c\<rparr> \<in> set (files result)"
      by (force simp: res files_of_def)
    moreover have "content f = c" if "f \<in> set (files result)" "path f = p" for f
    proof -
      have "(path f, content f) \<in> set (generatedFiles ?st)"
        using that(1) by (auto simp: res files_of_def)
      then have "map_of (generatedFiles ?st) p = Some (content f)"
        using dist that(2) by simp
      then show ?thesis using look by simp
    qed
    ultimately show ?thesis by blast
  qed
  show ?thesis using d w by blast
qed

theorem createApp_last_write_wins_witness:
  "createApp (Some ''key'') demo_lib
       (scripted [[write_call ''t1'' (Some ''a.html'') (Some ''X'')],
                  [write_call ''t2'' (Some ''a.html'') (Some ''Y'')]])
       ''a countdown timer'' None = Inr \<lparr>files = [\<lparr>path = ''a.html'', content = ''Y''\<rparr>]\<rparr> \<and>
   filter complete (write_invocations (messages (fst (run_loop demo_lib
       (scripted [[write_call ''t1'' (Some ''a.html'') (Some ''X'')],
                  [write_call ''t2'' (Some ''a.html'') (Some ''Y'')]])
       ''a countdown timer'' None)))) = [(''a.html'', ''X'')] @ (''a.html'', ''Y'') # [] \<and>
   distinct (map path [\<lparr>path = ''a.html'', content = ''Y''\<rparr>]) \<and>
   \<lparr>path = ''a.html'', content = ''Y''\<rparr> \<in> set [\<lparr>path = ''a.html'', content = ''Y''\<rparr>]"
proof -
  let ?client = "scripted [[write_call ''t1'' (Some ''a.html'') (Some ''X'')],
                  [write_call ''t2'' (Some ''a.html'') (Some ''Y'')]]"
  have app: "createApp (Some ''key'') demo_lib ?client ''a countdown timer'' None =
      Inr \<lparr>files = [\<lparr>path = ''a.html'', content = ''Y''\<rparr>]\<rparr>"
    by (simp add: run_defs)
  have ws: "filter complete (write_invocations (messages (fst (run_loop demo_lib ?client
       ''a countdown timer'' None)))) = [(''a.html'', ''X'')] @ (''a.html'', ''Y'') # []"
    by (simp add: run_defs write_invocations_def complete_def)
  show ?thesis
    using createApp_last_write_wins [OF app] app ws by simp
qed

subsection \<open>Incomplete invocations\<close>









subsection \<open>Tool results in the conversation\<close>

lemma answered_response_last:
  "answered needs (ms @ [Message assistant (Response bs)]) \<longleftrightarrow>
     answered needs ms \<and> invocation_ids needs bs = []"
  by (induction needs ms rule: answered.induct) auto

lemma answered_response_results:
  "trs \<noteq> [] \<Longrightarrow>
   answered needs (ms @ [Message assistant (Response bs), Message user (ToolResults trs)]) \<longleftrightarrow>
     answered needs ms \<and> map tool_use_id trs = invocation_ids needs bs"
  by (induction needs ms rule: answered.induct) auto

lemma handle_response_answered:
  assumes "answered (\<lambda>n. n = ''write_file'') (messages st)"
  shows "answered (\<lambda>n. n = ''write_file'') (messages (handle_response st r))"
proof -
  obtain trs where ids: "map tool_use_id trs = invocation_ids (\<lambda>n. n = ''write_file'') r"
    and ms: "messages (handle_response st r) =
           messages st @ Message assistant (Response r) #
             (if trs = [] then [] else [Message user (ToolResults trs)])"
    using handle_response_messages [of r st] by blast
  show ?thesis
  proof (cases "trs = []")
    case True
    then have "invocation_ids (\<lambda>n. n = ''write_file'') r = []" using ids by simp
    then show ?thesis
      using assms True by (simp add: ms answered_response_last)
  next
    case False
    then show ?thesis
      using assms ids by (simp add: ms answered_response_results)
  qed
qed

text \<open>
  What the code does for the invocations of \<^verbatim>\<open>write_file\<close>: every conversation that the
  loop hands to the client, and the conversation when the loop is left, is answered for
  that tool name.
\<close>

lemma write_file_invocations_answered:
  "(\<forall>conv \<in> set (requests (fst (run_loop lib client prompt existingFiles))).
      answered (\<lambda>n. n = ''write_file'') conv) \<and>
   answered (\<lambda>n. n = ''write_file'') (messages (fst (run_loop lib client prompt existingFiles)))"
proof -
  let ?P = "\<lambda>st. (\<forall>conv \<in> set (requests st). answered (\<lambda>n. n = ''write_file'') conv) \<and>
      answered (\<lambda>n. n = ''write_file'') (messages st)"
  have "?P (fst (agentic_loop client
      (if isUpdate existingFiles then UpdatePrompt else CreatePrompt) 0
      (initial_state lib prompt existingFiles)))"
  proof (rule agentic_loop_invariant [where P = ?P])
    show "?P (initial_state lib prompt existingFiles)"
      by (simp add: initial_state_def)
  next
    fix st :: loop_state
    assume "?P st"
    then show "?P (st\<lparr>requests := requests st @ [messages st]\<rparr>)" by simp
  next
    fix st :: loop_state and r
    assume "?P st"
    then show "?P (handle_response st r)"
      by (simp add: handle_response_requests handle_response_answered)
  qed
  then show ?thesis by (simp add: run_loop_def)
qed

text \<open>
  C6. The claim: after every response that holds a tool invocation, and before the next
  call of the client, the conversation gets exactly one tool result for each invocation
  of that response. The code makes results under the test
  \<^verbatim>\<open>block.name === 'write_file'\<close> only. For the \<^verbatim>\<open>write_file\<close> invocation without content
  the second call of the client gets the prompt, the response and a user message with the
  error result of that invocation. For the same invocation under the name
  \<^verbatim>\<open>read_file\<close> no result is made: the second call of the client gets a conversation that
  ends with the invocation, the next response is pushed right after it, and the
  conversation is not answered.
\<close>

theorem tool_invocation_left_unanswered:
  "requests (fst (run_loop demo_lib
       (scripted [[ToolUseBlock ''t1'' ''write_file''
                     \<lparr>input_path = Some ''a.html'', input_content = None\<rparr>]])
       ''a countdown timer'' None)) =
     [[Message user (Prompt (StringContent ''a countdown timer''))],
      [Message user (Prompt (StringContent ''a countdown timer'')),
       Message assistant (Response [ToolUseBlock ''t1'' ''write_file''
                     \<lparr>input_path = Some ''a.html'', input_content = None\<rparr>]),
       Message user (ToolResults
         [\<lparr>tool_use_id = ''t1'',
           result_content =
             ''Error: Incomplete file data. Please try again with a simpler request.'',
           is_error = True\<rparr>])]] \<and>
   requests (fst (run_loop demo_lib
       (scripted [[ToolUseBlock ''t1'' ''read_file''
                     \<lparr>input_path = Some ''a.html'', input_content = None\<rparr>]])
       ''a countdown timer'' None)) =
     [[Message user (Prompt (StringContent ''a countdown timer''))],
      [Message user (Prompt (StringContent ''a countdown timer'')),
       Message assistant (Response [ToolUseBlock ''t1'' ''read_file''
                     \<lparr>input_path = Some ''a.html'', input_content = None\<rparr>])]] \<and>
   messages (fst (run_loop demo_lib
       (scripted [[ToolUseBlock ''t1'' ''read_file''
                     \<lparr>input_path = Some ''a.html'', input_content = None\<rparr>]])
       ''a countdown timer'' None)) =
     [Message user (Prompt (StringContent ''a countdown timer'')),
      Message assistant (Response [ToolUseBlock ''t1'' ''read_file''
                     \<lparr>input_path = Some ''a.html'', input_content = None\<rparr>]),
      Message assistant (Response [TextBlock ''done''])] \<and>
   \<not> answered (\<lambda>n. True)
      [Message user (Prompt (StringContent ''a countdown timer'')),
       Message assistant (Response [ToolUseBlock ''t1'' ''read_file''
                     \<lparr>input_path = Some ''a.html'', input_content = None\<rparr>])]"
  by (simp add: run_defs error_result_def)

end
